theory Spec2Isabelle
  imports Complex_Main
begin

section \<open>The grid backtest engine \<open>run_strategy_logic\<close>\<close>

text \<open>
  The engine is the Python function \<open>run_strategy_logic(df, b_pct, s_pct, amt)\<close>. It reads
  the column \<open>Close\<close> of a data frame as an array of binary64 numbers, derives the daily
  changes, replays the trading rule in one loop and computes three statistics.

  Numbers. A finite floating-point value is modelled by the real number it denotes, and every
  floating-point operation of the source is the exact operation followed by a rounding
  \<open>rnd :: real \<Rightarrow> real\<close>, which all definitions take as their first argument. With
  \<open>rnd = (\<lambda>x. x)\<close> the model is the engine in exact arithmetic; with \<open>rnd = round53\<close>
  (defined below) it is the engine in binary64 precision, round to nearest, ties to even,
  with an unbounded exponent (overflow and underflow are not modelled). Comparisons,
  \<open>min\<close>, \<open>max\<close> and negation are exact in both.

  Special values. The division of the drawdown, \<open>(h_arr - peak) / peak\<close>, meets a zero
  denominator on ordinary inputs (the first equity value is 0); numpy then yields \<open>nan\<close> or
  an infinity and goes on, so that division is modelled with the type \<open>npfloat\<close>. The other
  divisions have a price as denominator. Where the source divides by a price that is 0,
  numpy likewise yields \<open>inf\<close> or \<open>nan\<close> without raising; the model does not follow the run
  on such values and answers \<open>NonFinite\<close>, which is neither an exception nor a result.
\<close>

type_synonym rounding = "real \<Rightarrow> real"

datatype py_error = IndexError | ValueError

datatype npfloat = Fin real | PosInf | NegInf | NaN

text \<open>
  The data frame: its index (the dates, of any type) and its column \<open>Close\<close>, row by row.
\<close>

type_synonym 'd dataframe = "('d \<times> real) list"

record state =
  cash :: real
  shares :: real
  b_cnt :: nat
  s_cnt :: nat
  history :: "real list"

text \<open>The tuple that the function returns, in the order of the \<open>return\<close> statement.\<close>

record 'd result =
  r_history :: "real list"
  r_index :: "'d list"
  r_b_cnt :: nat
  r_s_cnt :: nat
  r_cum_ret :: real
  r_mdd :: npfloat
  r_win_rate :: real
  r_final :: real

datatype 'a outcome = Raises py_error | Returns 'a | NonFinite

subsection \<open>Daily changes\<close>

text \<open>\<open>np.diff(a)\<close>: the differences of neighbours, one entry fewer than \<open>a\<close>.\<close>

fun np_diff :: "rounding \<Rightarrow> real list \<Rightarrow> real list" where
  "np_diff rnd (x # y # zs) = rnd (y - x) # np_diff rnd (y # zs)"
| "np_diff rnd zs = []"

text \<open>
  \<open>changes = np.insert(np.diff(prices) / prices[:-1], 0, 0)\<close>. The slice \<open>prices[:-1]\<close> is
  \<open>butlast prices\<close>, also for the empty array.
\<close>

definition changes :: "rounding \<Rightarrow> real list \<Rightarrow> real list option" where
  "changes rnd prices =
     (if 0 \<in> set (butlast prices) then None
      else Some (0 # map (\<lambda>(d, p). rnd (d / p)) (zip (np_diff rnd prices) (butlast prices))))"

subsection \<open>The loop\<close>

definition record_equity :: "rounding \<Rightarrow> real \<Rightarrow> state \<Rightarrow> state" where
  "record_equity rnd p st = st\<lparr>history := history st @ [rnd (rnd (shares st * p) + cash st)]\<rparr>"

text \<open>One iteration of \<open>for p, c in zip(prices, changes)\<close>.\<close>

definition day :: "rounding \<Rightarrow> real \<Rightarrow> real \<Rightarrow> real \<Rightarrow> state \<Rightarrow> real \<times> real \<Rightarrow> state option" where
  "day rnd b_pct s_pct amt st pc =
     (case pc of (p, c) \<Rightarrow>
        if c \<le> rnd (- b_pct / 100) then
          (if p = 0 then None
           else Some (record_equity rnd p
                  (st\<lparr>shares := rnd (shares st + rnd (amt / p)),
                      cash := rnd (cash st - amt),
                      b_cnt := b_cnt st + 1\<rparr>)))
        else if c \<ge> rnd (s_pct / 100) \<and> shares st > 0 then
          (if p = 0 then None
           else let val = min amt (rnd (shares st * p)) in
                Some (record_equity rnd p
                  (st\<lparr>shares := rnd (shares st - rnd (val / p)),
                      cash := rnd (cash st + val),
                      s_cnt := s_cnt st + 1\<rparr>)))
        else Some (record_equity rnd p st))"

fun loop :: "rounding \<Rightarrow> real \<Rightarrow> real \<Rightarrow> real \<Rightarrow> state \<Rightarrow> (real \<times> real) list \<Rightarrow> state option" where
  "loop rnd b_pct s_pct amt st [] = Some st"
| "loop rnd b_pct s_pct amt st (pc # rest) =
     (case day rnd b_pct s_pct amt st pc of
        None \<Rightarrow> None
      | Some st' \<Rightarrow> loop rnd b_pct s_pct amt st' rest)"

text \<open>\<open>cash, shares = 0, 0.0\<close>; \<open>b_cnt, s_cnt = 0, 0\<close>; \<open>history = []\<close>.\<close>

definition init_state :: state where
  "init_state = \<lparr>cash = 0, shares = 0, b_cnt = 0, s_cnt = 0, history = []\<rparr>"

subsection \<open>The statistics\<close>

text \<open>\<open>(np.diff(h_arr) > 0).mean() if len(h_arr) > 1 else 0\<close>\<close>

definition win_rate :: "rounding \<Rightarrow> real list \<Rightarrow> real" where
  "win_rate rnd h_arr =
     (if length h_arr > 1
      then rnd (real (length (filter (\<lambda>d. 0 < d) (np_diff rnd h_arr)))
                / real (length (np_diff rnd h_arr)))
      else 0)"

definition total_inv :: "rounding \<Rightarrow> nat \<Rightarrow> real \<Rightarrow> real" where
  "total_inv rnd bc amt = rnd (real bc * amt)"

text \<open>
  \<open>(h_arr[-1] / total_inv - 1) if total_inv > 0 else 0\<close>. The index \<open>-1\<close> raises on an empty
  array; the condition is evaluated first.
\<close>

definition cum_ret :: "rounding \<Rightarrow> real list \<Rightarrow> real \<Rightarrow> py_error + real" where
  "cum_ret rnd h_arr ti =
     (if ti > 0 then
        (case h_arr of
           [] \<Rightarrow> Inl IndexError
         | _ \<Rightarrow> Inr (rnd (rnd (last h_arr / ti) - 1)))
      else Inr 0)"

text \<open>\<open>np.maximum.accumulate\<close>: the running maximum, left to right.\<close>

fun accumulate_from :: "real \<Rightarrow> real list \<Rightarrow> real list" where
  "accumulate_from m [] = []"
| "accumulate_from m (x # xs) = max m x # accumulate_from (max m x) xs"

fun maximum_accumulate :: "real list \<Rightarrow> real list" where
  "maximum_accumulate [] = []"
| "maximum_accumulate (x # xs) = x # accumulate_from x xs"

text \<open>
  Division of two finite binary64 numbers as numpy does it: by zero it gives \<open>nan\<close> for
  \<open>0 / 0\<close> and an infinity of the numerator's sign otherwise.
\<close>

definition np_div :: "rounding \<Rightarrow> real \<Rightarrow> real \<Rightarrow> npfloat" where
  "np_div rnd a b =
     (if b = 0 then (if a = 0 then NaN else if 0 < a then PosInf else NegInf)
      else Fin (rnd (a / b)))"

text \<open>The order of IEEE 754: every comparison with \<open>nan\<close> is false.\<close>

fun np_le :: "npfloat \<Rightarrow> npfloat \<Rightarrow> bool" where
  "np_le NaN y = False"
| "np_le x NaN = False"
| "np_le NegInf y = True"
| "np_le x PosInf = True"
| "np_le (Fin a) (Fin b) = (a \<le> b)"
| "np_le x y = False"

text \<open>The smaller of two values, a \<open>nan\<close> giving way to the other one.\<close>

definition fmin :: "npfloat \<Rightarrow> npfloat \<Rightarrow> npfloat" where
  "fmin a b = (if a = NaN then b else if b = NaN then a else if np_le a b then a else b)"

text \<open>
  \<open>np.nanmin\<close>: the minimum of the entries that are not \<open>nan\<close>; \<open>nan\<close> (with a warning) when
  all are; ValueError on an empty array.
\<close>

fun nanmin :: "npfloat list \<Rightarrow> py_error + npfloat" where
  "nanmin [] = Inl ValueError"
| "nanmin (v # vs) = Inr (foldl fmin v vs)"

definition drawdowns :: "rounding \<Rightarrow> real list \<Rightarrow> real list \<Rightarrow> npfloat list" where
  "drawdowns rnd h_arr peak = map (\<lambda>(e, pk). np_div rnd (rnd (e - pk)) pk) (zip h_arr peak)"

text \<open>
  \<open>peak = np.maximum.accumulate(h_arr)\<close>;
  \<open>mdd = np.nanmin((h_arr - peak) / peak) if peak.any() else 0\<close>.
\<close>

definition mdd :: "rounding \<Rightarrow> real list \<Rightarrow> py_error + npfloat" where
  "mdd rnd h_arr =
     (let peak = maximum_accumulate h_arr in
      if list_ex (\<lambda>pk. pk \<noteq> 0) peak then nanmin (drawdowns rnd h_arr peak)
      else Inr (Fin 0))"

subsection \<open>The function\<close>

text \<open>
  The last component of the returned tuple, \<open>shares * prices[-1]\<close>, is evaluated after the
  statistics and raises IndexError when \<open>prices\<close> is empty.
\<close>

definition run_strategy_logic ::
  "rounding \<Rightarrow> 'd dataframe \<Rightarrow> real \<Rightarrow> real \<Rightarrow> real \<Rightarrow> 'd result outcome" where
  "run_strategy_logic rnd df b_pct s_pct amt =
     (let prices = map snd df in
      case changes rnd prices of
        None \<Rightarrow> NonFinite
      | Some cs \<Rightarrow>
          (case loop rnd b_pct s_pct amt init_state (zip prices cs) of
             None \<Rightarrow> NonFinite
           | Some st \<Rightarrow>
               (let h_arr = history st;
                    wr = win_rate rnd h_arr;
                    ti = total_inv rnd (b_cnt st) amt
                in case cum_ret rnd h_arr ti of
                     Inl e \<Rightarrow> Raises e
                   | Inr cr \<Rightarrow>
                       (case mdd rnd h_arr of
                          Inl e \<Rightarrow> Raises e
                        | Inr m \<Rightarrow>
                            (case prices of
                               [] \<Rightarrow> Raises IndexError
                             | _ \<Rightarrow>
                                 Returns \<lparr>r_history = h_arr, r_index = map fst df,
                                   r_b_cnt = b_cnt st, r_s_cnt = s_cnt st,
                                   r_cum_ret = cr, r_mdd = m, r_win_rate = wr,
                                   r_final = rnd (shares st * last prices)\<rparr>)))))"

subsection \<open>Inputs, intermediate states and roundings\<close>

text \<open>
  A valid input in the sense of the specification: at least one observation, every price
  strictly positive, both thresholds and the trade amount strictly positive.
\<close>

definition valid_input :: "real list \<Rightarrow> real \<Rightarrow> real \<Rightarrow> real \<Rightarrow> bool" where
  "valid_input prices b_pct s_pct amt =
     (prices \<noteq> [] \<and> list_all (\<lambda>p. 0 < p) prices \<and> 0 < b_pct \<and> 0 < s_pct \<and> 0 < amt)"

text \<open>
  The state of the loop after its first \<open>i\<close> iterations, that is, after the days
  \<open>0, \<dots>, i - 1\<close>.
\<close>

definition state_after :: "rounding \<Rightarrow> real \<Rightarrow> real \<Rightarrow> real \<Rightarrow> real list \<Rightarrow> nat \<Rightarrow> state option" where
  "state_after rnd b_pct s_pct amt prices i =
     (case changes rnd prices of
        None \<Rightarrow> None
      | Some cs \<Rightarrow> loop rnd b_pct s_pct amt init_state (take i (zip prices cs)))"

text \<open>Exact arithmetic: no rounding at all.\<close>

definition exact :: rounding where
  "exact x = x"

text \<open>
  What the theorems below ask of a rounding, where they ask anything: it keeps 0 and 1,
  it is monotone, and it rounds nothing but 0 to 0 (no underflow).
\<close>

definition faithful :: "rounding \<Rightarrow> bool" where
  "faithful rnd = (rnd 0 = 0 \<and> rnd 1 = 1 \<and> (\<forall>x y. x \<le> y \<longrightarrow> rnd x \<le> rnd y) \<and> (\<forall>x. rnd x = 0 \<longrightarrow> x = 0))"

text \<open>The series of the specification's worked example, dated \<open>0, 1, 2, 3\<close>.\<close>

definition example_df :: "nat dataframe" where
  "example_df = [(0, 100), (1, 99), (2, 201 / 2), (3, 102)]"

text \<open>Everything in the returned tuple except the index.\<close>

definition numeric_part :: "'d result \<Rightarrow> real list \<times> nat \<times> nat \<times> real \<times> npfloat \<times> real \<times> real" where
  "numeric_part r =
     (r_history r, r_b_cnt r, r_s_cnt r, r_cum_ret r, r_mdd r, r_win_rate r, r_final r)"

subsection \<open>Rounding to binary64\<close>

text \<open>
  A positive real is brought into the form \<open>m * 2 ^ e\<close> with \<open>2 ^ 52 \<le> m < 2 ^ 53\<close> by
  halving or doubling; the exponent is not bounded.
\<close>

function scale_down :: "real \<Rightarrow> int \<Rightarrow> real \<times> int" where
  "scale_down x e = (if 2 ^ 53 \<le> x then scale_down (x / 2) (e + 1) else (x, e))"
  by pat_completeness auto
termination
proof (relation "measure (\<lambda>(x, e). nat \<lceil>x\<rceil>)")
  show "wf (measure (\<lambda>(x, e). nat \<lceil>x\<rceil>))" by simp
next
  fix x :: real and e :: int
  assume a: "2 ^ 53 \<le> x"
  have "of_int \<lceil>x / 2\<rceil> < x / 2 + 1" by linarith
  also have "\<dots> \<le> x" using a by simp
  also have "\<dots> \<le> of_int \<lceil>x\<rceil>" by linarith
  finally have "\<lceil>x / 2\<rceil> < \<lceil>x\<rceil>" by simp
  moreover have "0 < \<lceil>x\<rceil>" using a by (simp add: less_ceiling_iff) 
  ultimately show "((x / 2, e + 1), x, e) \<in> measure (\<lambda>(x, e). nat \<lceil>x\<rceil>)"
    by simp
qed

function scale_up :: "real \<Rightarrow> int \<Rightarrow> real \<times> int" where
  "scale_up x e = (if 0 < x \<and> x < 2 ^ 52 then scale_up (2 * x) (e - 1) else (x, e))"
  by pat_completeness auto
termination
proof (relation "measure (\<lambda>(x, e). nat \<lceil>2 ^ 52 / x\<rceil>)")
  show "wf (measure (\<lambda>(x, e). nat \<lceil>2 ^ 52 / x\<rceil>))" by simp
next
  fix x :: real and e :: int
  assume a: "0 < x \<and> x < 2 ^ 52"
  define y where "y = 2 ^ 52 / x"
  have y: "1 < y" using a by (simp add: y_def)
  have h: "2 ^ 52 / (2 * x) = y / 2" by (simp add: y_def)
  have "\<lceil>y / 2\<rceil> < \<lceil>y\<rceil>"
  proof (cases "y \<le> 2")
    case True
    then have "y / 2 \<le> of_int 1" by simp
    then have "\<lceil>y / 2\<rceil> \<le> 1" by (rule ceiling_le)
    moreover have "of_int 1 < y" using y by simp
    then have "1 < \<lceil>y\<rceil>" by (simp only: less_ceiling_iff)
    ultimately show ?thesis by linarith
  next
    case False
    have "of_int \<lceil>y / 2\<rceil> < y / 2 + 1" by linarith
    also have "\<dots> < y" using False by simp
    also have "\<dots> \<le> of_int \<lceil>y\<rceil>" by linarith
    finally show ?thesis by simp
  qed
  moreover have "0 < \<lceil>y\<rceil>" using y by (simp add: less_ceiling_iff)
  ultimately show "((2 * x, e - 1), x, e) \<in> measure (\<lambda>(x, e). nat \<lceil>2 ^ 52 / x\<rceil>)"
    using h by (simp add: y_def)
qed

text \<open>The nearest integer, a tie going to the even one.\<close>

definition round_half_even :: "real \<Rightarrow> int" where
  "round_half_even x =
     (let f = \<lfloor>x\<rfloor>; d = x - of_int f
      in if d < 1 / 2 then f else if 1 / 2 < d then f + 1 else if even f then f else f + 1)"

text \<open>
  Rounding to the nearest number with a significand of 53 bits, ties to even: the rounding
  of every binary64 operation whose result neither overflows nor is subnormal.
\<close>

definition round53 :: rounding where
  "round53 x =
     (if x = 0 then 0
      else case scale_up \<bar>x\<bar> 0 of (y, e) \<Rightarrow>
           case scale_down y e of (m, e') \<Rightarrow>
             sgn x * of_int (round_half_even m) * 2 powi e')"

section \<open>Properties\<close>

subsection \<open>Auxiliary facts\<close>


lemmas eval_defs = run_strategy_logic_def changes_def day_def record_equity_def init_state_def
  win_rate_def total_inv_def cum_ret_def mdd_def drawdowns_def np_div_def fmin_def exact_def Let_def

lemma length_np_diff: "length (np_diff rnd xs) = length xs - 1"
  by (induction rnd xs rule: np_diff.induct) auto

lemma nth_np_diff: "Suc i < length xs \<Longrightarrow> np_diff rnd xs ! i = rnd (xs ! Suc i - xs ! i)"
proof (induction rnd xs arbitrary: i rule: np_diff.induct)
  case (1 rnd x y zs)
  then show ?case by (cases i) auto
qed auto

lemma length_changes: "changes rnd prices = Some cs \<Longrightarrow> length cs = Suc (length prices - 1)"
  by (auto simp: changes_def length_np_diff split: if_splits)

lemma changes_Some: "0 \<notin> set (butlast prices) \<Longrightarrow> \<exists>cs. changes rnd prices = Some cs"
  by (simp add: changes_def)

lemma nth_changes_0: "changes rnd prices = Some cs \<Longrightarrow> cs ! 0 = 0"
  by (auto simp: changes_def split: if_splits)

lemma nth_changes_Suc:
  assumes "changes rnd prices = Some cs" and "Suc i < length prices"
  shows "cs ! Suc i = rnd (rnd (prices ! Suc i - prices ! i) / prices ! i)"
proof -
  have "i < length (zip (np_diff rnd prices) (butlast prices))"
    using assms(2) by (simp add: length_np_diff)
  then show ?thesis
    using assms by (auto simp: changes_def nth_np_diff nth_butlast split: if_splits)
qed

lemma loop_append:
  "loop rnd b s a st (xs @ ys) =
     (case loop rnd b s a st xs of None \<Rightarrow> None | Some st' \<Rightarrow> loop rnd b s a st' ys)"
  by (induction xs arbitrary: st) (auto split: option.splits)

lemma day_Some: "fst pc \<noteq> 0 \<Longrightarrow> \<exists>st'. day rnd b s a st pc = Some st'"
  by (cases pc) (auto simp: day_def Let_def)

lemma loop_Some: "\<forall>pc \<in> set xs. fst pc \<noteq> 0 \<Longrightarrow> \<exists>st'. loop rnd b s a st xs = Some st'"
proof (induction xs arbitrary: st)
  case (Cons pc xs)
  then obtain st' where "day rnd b s a st pc = Some st'"
    using day_Some[of pc rnd b s a st] by auto
  with Cons show ?case by auto
qed simp

lemma day_history:
  "day rnd b s a st (p, c) = Some st' \<Longrightarrow>
     history st' = history st @ [rnd (rnd (shares st' * p) + cash st')]"
  by (auto simp: day_def record_equity_def Let_def split: if_splits)

lemma loop_history_length:
  "loop rnd b s a st xs = Some st' \<Longrightarrow> length (history st') = length (history st) + length xs"
proof (induction xs arbitrary: st)
  case (Cons pc xs)
  then show ?case
    by (cases pc) (auto split: option.splits dest!: day_history)
qed simp

lemma loop_history_prefix:
  "loop rnd b s a st xs = Some st' \<Longrightarrow> take (length (history st)) (history st') = history st"
proof (induction xs arbitrary: st)
  case (Cons pc xs)
  obtain p c where pc: "pc = (p, c)" by (cases pc)
  from Cons.prems obtain st1 where d: "day rnd b s a st pc = Some st1"
    and l: "loop rnd b s a st1 xs = Some st'"
    by (auto split: option.splits)
  from d pc have h: "history st1 = history st @ [rnd (rnd (shares st1 * p) + cash st1)]"
    by (simp add: day_history)
  from Cons.IH[OF l] have "take (length (history st1)) (history st') = history st1" .
  then have "take (length (history st)) (take (length (history st1)) (history st')) = take (length (history st)) (history st1)"
    by simp
  then show ?case using h by (simp add: min_def)
qed simp


lemma faithful_exact: "faithful exact"
  by (simp add: faithful_def exact_def)

lemma faithful_zero: "faithful rnd \<Longrightarrow> rnd 0 = 0"
  by (simp add: faithful_def)

lemma faithful_pos: "faithful rnd \<Longrightarrow> 0 < x \<Longrightarrow> 0 < rnd x"
  unfolding faithful_def by (metis less_eq_real_def not_less)

lemma faithful_neg: "faithful rnd \<Longrightarrow> x < 0 \<Longrightarrow> rnd x < 0"
  unfolding faithful_def by (metis less_eq_real_def not_less)

lemma faithful_pos_iff: "faithful rnd \<Longrightarrow> 0 < rnd x \<longleftrightarrow> 0 < x"
  by (metis faithful_neg faithful_pos faithful_zero less_irrefl linorder_less_linear order_less_trans)

lemma state_after_Suc:
  assumes "changes rnd prices = Some cs" and "i < length prices" and "prices \<noteq> []"
  shows "state_after rnd b s a prices (Suc i) =
     (case state_after rnd b s a prices i of
        None \<Rightarrow> None
      | Some st \<Rightarrow> day rnd b s a st (prices ! i, cs ! i))"
proof -
  have len: "length cs = length prices"
    using assms(1,3) length_changes[OF assms(1)] by (cases prices) auto
  then have "i < length (zip prices cs)" using assms(2) by simp
  then have "take (Suc i) (zip prices cs) = take i (zip prices cs) @ [zip prices cs ! i]"
    by (rule take_Suc_conv_app_nth)
  moreover have "zip prices cs ! i = (prices ! i, cs ! i)"
    using assms(2) len by simp
  ultimately show ?thesis
    using assms(1) by (simp add: state_after_def loop_append split: option.splits)
qed

lemma valid_nonzero: "valid_input prices b s a \<Longrightarrow> p \<in> set prices \<Longrightarrow> p \<noteq> 0"
  by (auto simp: valid_input_def list_all_iff)

lemma valid_changes: "valid_input prices b s a \<Longrightarrow> \<exists>cs. changes rnd prices = Some cs \<and> length cs = length prices"
proof -
  assume v: "valid_input prices b s a"
  then have "0 \<notin> set (butlast prices)"
    using valid_nonzero[OF v] in_set_butlastD by fastforce
  then obtain cs where cs: "changes rnd prices = Some cs"
    using changes_Some by blast
  moreover have "prices \<noteq> []" using v by (simp add: valid_input_def)
  ultimately have "length cs = length prices"
    using length_changes[OF cs] by (cases prices) auto
  with cs show ?thesis by blast
qed

lemma valid_state_after:
  assumes "valid_input prices b s a"
  shows "\<exists>st. state_after rnd b s a prices i = Some st"
proof -
  obtain cs where cs: "changes rnd prices = Some cs"
    using valid_changes[OF assms] by blast
  have "\<forall>pc \<in> set (take i (zip prices cs)). fst pc \<noteq> 0"
  proof
    fix pc assume "pc \<in> set (take i (zip prices cs))"
    then have "pc \<in> set (zip prices cs)" by (rule in_set_takeD)
    then have "fst pc \<in> set prices" by (metis prod.collapse set_zip_leftD)
    then show "fst pc \<noteq> 0" using valid_nonzero[OF assms] by blast
  qed
  then show ?thesis
    using cs loop_Some by (simp add: state_after_def)
qed

lemma day_cases:
  assumes "day rnd b s a st (p, c) = Some st'"
  shows "(if c \<le> rnd (- b / 100) then
            shares st' = rnd (shares st + rnd (a / p)) \<and> cash st' = rnd (cash st - a)
            \<and> b_cnt st' = b_cnt st + 1 \<and> s_cnt st' = s_cnt st
          else if c \<ge> rnd (s / 100) \<and> shares st > 0 then
            shares st' = rnd (shares st - rnd (min a (rnd (shares st * p)) / p))
            \<and> cash st' = rnd (cash st + min a (rnd (shares st * p)))
            \<and> b_cnt st' = b_cnt st \<and> s_cnt st' = s_cnt st + 1
          else shares st' = shares st \<and> cash st' = cash st
            \<and> b_cnt st' = b_cnt st \<and> s_cnt st' = s_cnt st)"
  using assms by (auto simp: day_def record_equity_def Let_def split: if_splits)


lemma length_accumulate_from: "length (accumulate_from m xs) = length xs"
  by (induction xs arbitrary: m) auto

lemma length_maximum_accumulate: "length (maximum_accumulate xs) = length xs"
  by (cases xs) (auto simp: length_accumulate_from)

lemma mdd_total: "\<exists>m. mdd rnd h = Inr m"
proof (cases h)
  case Nil
  then show ?thesis by (simp add: mdd_def)
next
  case (Cons x xs)
  then have "drawdowns rnd h (maximum_accumulate h) \<noteq> []"
    by (simp add: drawdowns_def)
  then obtain v vs where "drawdowns rnd h (maximum_accumulate h) = v # vs"
    by (cases "drawdowns rnd h (maximum_accumulate h)") auto
  then show ?thesis by (simp add: mdd_def Let_def)
qed

lemma run_Returns:
  assumes "df \<noteq> []" and "changes rnd (map snd df) = Some cs"
    and "loop rnd b s a init_state (zip (map snd df) cs) = Some st"
  shows "\<exists>m. mdd rnd (history st) = Inr m \<and>
     run_strategy_logic rnd df b s a =
       Returns \<lparr>r_history = history st, r_index = map fst df,
         r_b_cnt = b_cnt st, r_s_cnt = s_cnt st,
         r_cum_ret = (if total_inv rnd (b_cnt st) a > 0
                      then rnd (rnd (last (history st) / total_inv rnd (b_cnt st) a) - 1) else 0),
         r_mdd = m, r_win_rate = win_rate rnd (history st),
         r_final = rnd (shares st * last (map snd df))\<rparr>"
proof -
  obtain m where m: "mdd rnd (history st) = Inr m" using mdd_total by blast
  have "length cs = length (map snd df)"
    using length_changes[OF assms(2)] assms(1) by (cases df) auto
  then have "length (history st) = length df"
    using loop_history_length[OF assms(3)] by (simp add: init_state_def)
  then have ne: "history st \<noteq> []" using assms(1) by auto
  then have c: "cum_ret rnd (history st) ti = Inr (if ti > 0 then rnd (rnd (last (history st) / ti) - 1) else 0)" for ti
    by (cases "history st") (auto simp: cum_ret_def)
  have p: "map snd df \<noteq> []" using assms(1) by simp
  show ?thesis
    using m assms(2,3) c p
    by (cases "map snd df") (auto simp: run_strategy_logic_def Let_def)
qed

lemma state_after_full:
  assumes "changes rnd prices = Some cs"
  shows "state_after rnd b s a prices (length prices) = loop rnd b s a init_state (zip prices cs)"
  using assms by (simp add: state_after_def)

lemma state_after_history_length:
  assumes "state_after rnd b s a prices i = Some st" and "i \<le> length prices" and "prices \<noteq> []"
  shows "length (history st) = i"
proof -
  obtain cs where cs: "changes rnd prices = Some cs"
    using assms(1) by (auto simp: state_after_def split: option.splits)
  then have "length cs = length prices"
    using length_changes[OF cs] assms(3) by (cases prices) auto
  moreover have "loop rnd b s a init_state (take i (zip prices cs)) = Some st"
    using assms(1) cs by (simp add: state_after_def)
  ultimately show ?thesis
    using loop_history_length assms(2) by (fastforce simp: init_state_def)
qed

lemma state_after_prefix:
  assumes "state_after rnd b s a prices i = Some st"
    and "state_after rnd b s a prices (length prices) = Some stN"
    and "i \<le> length prices" and "prices \<noteq> []"
  shows "take i (history stN) = history st"
proof -
  obtain cs where cs: "changes rnd prices = Some cs"
    using assms(1) by (auto simp: state_after_def split: option.splits)
  let ?z = "zip prices cs"
  have full: "loop rnd b s a init_state ?z = Some stN"
    using assms(2) cs by (simp add: state_after_def)
  have pre: "loop rnd b s a init_state (take i ?z) = Some st"
    using assms(1) cs by (simp add: state_after_def)
  have "loop rnd b s a init_state (take i ?z @ drop i ?z) = loop rnd b s a st (drop i ?z)"
    unfolding loop_append using pre by simp
  then have "loop rnd b s a st (drop i ?z) = Some stN"
    using full by simp
  then have "take (length (history st)) (history stN) = history st"
    by (rule loop_history_prefix)
  then show ?thesis
    using state_after_history_length[OF assms(1,3,4)] by simp
qed

subsection \<open>The trading rule, day by day\<close>

text \<open>
  Claim C1. On a valid input the loop visits the days in order, and for each day \<open>i\<close>, with
  \<open>st\<close> the state before it and \<open>st'\<close> the state after it: if \<open>change[i] \<le> -b_pct/100\<close> it
  buys (shares grow by \<open>amt / price[i]\<close>, cash falls by \<open>amt\<close> without any test of funds, the
  buy counter grows by one); otherwise, if \<open>change[i] \<ge> s_pct/100\<close> and shares are held, it
  sells \<open>val = min(amt, shares * price[i])\<close> (shares fall by \<open>val / price[i]\<close>, cash grows by
  \<open>val\<close>, the sell counter grows by one); otherwise nothing changes. In every case the value
  appended to the trajectory, which is entry \<open>i\<close> of the returned trajectory, is
  \<open>shares * price[i] + cash\<close> of the state after the trade. \<open>change[0]\<close> is 0 and \<open>change[i]\<close>
  is the relative difference to the day before. Each operation is followed by the rounding
  \<open>rnd\<close>, which may be any function; for \<open>rnd = exact\<close> these are the formulas as written.
\<close>

theorem daily_rule:
  assumes "valid_input (map snd df) b_pct s_pct amt" and "i < length df"
  shows "\<exists>cs st st' r.
     changes rnd (map snd df) = Some cs
     \<and> cs ! i = (if i = 0 then 0
                else rnd (rnd (snd (df ! i) - snd (df ! (i - 1))) / snd (df ! (i - 1))))
     \<and> state_after rnd b_pct s_pct amt (map snd df) i = Some st
     \<and> state_after rnd b_pct s_pct amt (map snd df) (Suc i) = Some st'
     \<and> (if cs ! i \<le> rnd (- b_pct / 100) then
          shares st' = rnd (shares st + rnd (amt / snd (df ! i)))
          \<and> cash st' = rnd (cash st - amt)
          \<and> b_cnt st' = b_cnt st + 1 \<and> s_cnt st' = s_cnt st
        else if cs ! i \<ge> rnd (s_pct / 100) \<and> shares st > 0 then
          shares st' = rnd (shares st - rnd (min amt (rnd (shares st * snd (df ! i))) / snd (df ! i)))
          \<and> cash st' = rnd (cash st + min amt (rnd (shares st * snd (df ! i))))
          \<and> b_cnt st' = b_cnt st \<and> s_cnt st' = s_cnt st + 1
        else shares st' = shares st \<and> cash st' = cash st
          \<and> b_cnt st' = b_cnt st \<and> s_cnt st' = s_cnt st)
     \<and> history st' = history st @ [rnd (rnd (shares st' * snd (df ! i)) + cash st')]
     \<and> run_strategy_logic rnd df b_pct s_pct amt = Returns r
     \<and> length (r_history r) = length df
     \<and> r_history r ! i = rnd (rnd (shares st' * snd (df ! i)) + cash st')"
proof -
  let ?prices = "map snd df"
  have ne: "?prices \<noteq> []" and dfne: "df \<noteq> []" using assms(2) by auto
  have i: "i < length ?prices" using assms(2) by simp
  obtain cs where cs: "changes rnd ?prices = Some cs"
    using valid_changes[OF assms(1)] by blast
  obtain st where st: "state_after rnd b_pct s_pct amt ?prices i = Some st"
    using valid_state_after[OF assms(1)] by blast
  obtain st' where st': "state_after rnd b_pct s_pct amt ?prices (Suc i) = Some st'"
    using valid_state_after[OF assms(1)] by blast
  obtain stN where stN: "state_after rnd b_pct s_pct amt ?prices (length ?prices) = Some stN"
    using valid_state_after[OF assms(1)] by blast
  have d: "day rnd b_pct s_pct amt st (snd (df ! i), cs ! i) = Some st'"
    using state_after_Suc[OF cs i ne, of b_pct s_pct amt] st st' assms(2) by simp
  have c: "cs ! i = (if i = 0 then 0
                else rnd (rnd (snd (df ! i) - snd (df ! (i - 1))) / snd (df ! (i - 1))))"
  proof (cases i)
    case 0
    then show ?thesis using nth_changes_0[OF cs] by simp
  next
    case (Suc j)
    then show ?thesis using nth_changes_Suc[OF cs, of j] i by simp
  qed
  have h: "history st' = history st @ [rnd (rnd (shares st' * snd (df ! i)) + cash st')]"
    using day_history[OF d] .
  have li: "length (history st) = i"
    using state_after_history_length[OF st _ ne] i by simp
  have "loop rnd b_pct s_pct amt init_state (zip ?prices cs) = Some stN"
    using stN state_after_full[OF cs] by simp
  from run_Returns[OF dfne cs this] obtain r where
    r: "run_strategy_logic rnd df b_pct s_pct amt = Returns r" and rh: "r_history r = history stN"
    by auto
  have lN: "length (history stN) = length df"
    using state_after_history_length[OF stN _ ne] by simp
  have "take (Suc i) (history stN) = history st'"
    using state_after_prefix[OF st' stN _ ne] i by simp
  then have "history stN ! i = history st' ! i"
    by (metis lessI nth_take)
  moreover have "history st' ! i = rnd (rnd (shares st' * snd (df ! i)) + cash st')"
    using nth_append_length[of "history st"] h li by metis
  ultimately have e: "r_history r ! i = rnd (rnd (shares st' * snd (df ! i)) + cash st')"
    using rh by simp
  show ?thesis
    using cs c st st' day_cases[OF d] h r rh lN e by auto
qed

theorem daily_rule_witness:
  "valid_input (map snd example_df) 1 (3 / 2) 1000 \<and> 2 < length example_df
   \<and> (\<exists>st st' r. state_after exact 1 (3 / 2) 1000 (map snd example_df) 2 = Some st
        \<and> state_after exact 1 (3 / 2) 1000 (map snd example_df) 3 = Some st'
        \<and> run_strategy_logic exact example_df 1 (3 / 2) 1000 = Returns r
        \<and> r_history r ! 2 = exact (exact (shares st' * snd (example_df ! 2)) + cash st'))"
proof -
  have v: "valid_input (map snd example_df) 1 (3 / 2) 1000"
    by (simp add: valid_input_def example_df_def)
  have i: "2 < length example_df"
    by (simp add: example_df_def)
  from daily_rule [OF v i, of exact] show ?thesis
    using v i by (auto simp: numeral_3_eq_3)
qed


subsection \<open>Day 0\<close>





subsection \<open>The number of trades\<close>





subsection \<open>Short series\<close>




subsection \<open>Errors\<close>

text \<open>
  Claim C2 says that an empty series, a price that is not positive, or a trade amount or
  threshold that is not positive makes the function signal an input error. The function
  validates nothing: with a trade amount of \<open>-1000\<close> it runs as usual and returns.
\<close>

theorem validation_absent_counterexample:
  "run_strategy_logic exact [(0::nat, 100), (1, 99)] 1 (3 / 2) (- 1000) =
     Returns \<lparr>r_history = [0, 0], r_index = [0, 1], r_b_cnt = 1, r_s_cnt = 0,
       r_cum_ret = 0, r_mdd = Fin 0, r_win_rate = 0, r_final = - 1000\<rparr>"
  by (simp add: eval_defs)

text \<open>
  Claim C2, amended. The function raises exactly when the series is empty, and then it is
  IndexError, with no partial result. On a series that is not empty it never raises,
  whatever the signs of prices, thresholds and trade amount, and it returns a result
  whenever no price is 0.
\<close>

theorem raises_only_on_empty:
  "(run_strategy_logic rnd df b_pct s_pct amt = Raises e \<longleftrightarrow> df = [] \<and> e = IndexError)
   \<and> (df \<noteq> [] \<and> 0 \<notin> set (map snd df)
        \<longrightarrow> (\<exists>r. run_strategy_logic rnd df b_pct s_pct amt = Returns r))"
proof -
  have empty: "run_strategy_logic rnd [] b_pct s_pct amt = Raises IndexError"
    by (cases "0 < rnd 0")
      (simp_all add: run_strategy_logic_def changes_def init_state_def win_rate_def
        total_inv_def cum_ret_def mdd_def Let_def)
  have nonempty: "run_strategy_logic rnd df b_pct s_pct amt \<noteq> Raises e" if "df \<noteq> []"
  proof (cases "changes rnd (map snd df)")
    case None
    then show ?thesis by (simp add: run_strategy_logic_def)
  next
    case (Some cs)
    show ?thesis
    proof (cases "loop rnd b_pct s_pct amt init_state (zip (map snd df) cs)")
      case None
      then show ?thesis using Some by (simp add: run_strategy_logic_def)
    next
      case (Some st)
      from run_Returns[OF that \<open>changes rnd (map snd df) = Some cs\<close> Some]
      show ?thesis by auto
    qed
  qed
  have returns: "\<exists>r. run_strategy_logic rnd df b_pct s_pct amt = Returns r"
    if "df \<noteq> []" and "0 \<notin> set (map snd df)"
  proof -
    have "0 \<notin> set (butlast (map snd df))"
      using that(2) in_set_butlastD by metis
    then obtain cs where cs: "changes rnd (map snd df) = Some cs"
      using changes_Some by blast
    have "\<forall>pc \<in> set (zip (map snd df) cs). fst pc \<noteq> 0"
      using that(2) by (metis prod.collapse set_zip_leftD)
    then obtain st where "loop rnd b_pct s_pct amt init_state (zip (map snd df) cs) = Some st"
      using loop_Some by blast
    from run_Returns[OF that(1) cs this] show ?thesis by blast
  qed
  show ?thesis using empty nonempty returns by (cases "df = []") auto
qed

theorem raises_only_on_empty_witness:
  "[(0::nat, 100::real), (1, - 5)] \<noteq> [] \<and> 0 \<notin> set (map snd [(0::nat, 100::real), (1, - 5)])
   \<and> (\<exists>r. run_strategy_logic exact [(0::nat, 100), (1, - 5)] 1 (3 / 2) (- 1000) = Returns r)"
  using raises_only_on_empty [of exact "[(0::nat, 100), (1, - 5)]" 1 "3 / 2" "- 1000"]
  by simp


subsection \<open>The statistics of a valid run\<close>

lemma valid_run:
  assumes "valid_input (map snd df) b_pct s_pct amt"
  shows "\<exists>st r. state_after rnd b_pct s_pct amt (map snd df) (length df) = Some st
     \<and> length (history st) = length df
     \<and> run_strategy_logic rnd df b_pct s_pct amt = Returns r
     \<and> r_history r = history st \<and> r_index r = map fst df
     \<and> r_b_cnt r = b_cnt st \<and> r_s_cnt r = s_cnt st
     \<and> r_cum_ret r = (if total_inv rnd (b_cnt st) amt > 0
                      then rnd (rnd (last (history st) / total_inv rnd (b_cnt st) amt) - 1) else 0)
     \<and> mdd rnd (history st) = Inr (r_mdd r)
     \<and> r_win_rate r = win_rate rnd (history st)
     \<and> r_final r = rnd (shares st * last (map snd df))"
proof -
  let ?prices = "map snd df"
  have ne: "?prices \<noteq> []" using assms by (simp add: valid_input_def)
  then have dfne: "df \<noteq> []" by simp
  obtain cs where cs: "changes rnd ?prices = Some cs"
    using valid_changes[OF assms] by blast
  obtain st where st: "state_after rnd b_pct s_pct amt ?prices (length ?prices) = Some st"
    using valid_state_after[OF assms] by blast
  then have l: "loop rnd b_pct s_pct amt init_state (zip ?prices cs) = Some st"
    using state_after_full[OF cs] by simp
  have len: "length (history st) = length df"
    using state_after_history_length[OF st _ ne] by simp
  from run_Returns[OF dfne cs l] obtain m where m: "mdd rnd (history st) = Inr m"
    and r: "run_strategy_logic rnd df b_pct s_pct amt =
       Returns \<lparr>r_history = history st, r_index = map fst df,
         r_b_cnt = b_cnt st, r_s_cnt = s_cnt st,
         r_cum_ret = (if total_inv rnd (b_cnt st) amt > 0
                      then rnd (rnd (last (history st) / total_inv rnd (b_cnt st) amt) - 1) else 0),
         r_mdd = m, r_win_rate = win_rate rnd (history st),
         r_final = rnd (shares st * last (map snd df))\<rparr>"
    by blast
  show ?thesis
    apply (rule exI[of _ st])
    apply (rule exI[of _ "\<lparr>r_history = history st, r_index = map fst df,
         r_b_cnt = b_cnt st, r_s_cnt = s_cnt st,
         r_cum_ret = (if total_inv rnd (b_cnt st) amt > 0
                      then rnd (rnd (last (history st) / total_inv rnd (b_cnt st) amt) - 1) else 0),
         r_mdd = m, r_win_rate = win_rate rnd (history st),
         r_final = rnd (shares st * last (map snd df))\<rparr>"])
    using st len r m by simp
qed

text \<open>
  Claim C6. On a valid input the function returns, and the cumulative return is
  \<open>E[N-1] / (b_cnt * amt) - 1\<close> when \<open>b_cnt * amt > 0\<close> (the divisor is then not 0) and exactly
  0 otherwise, in particular when no buy happened.
\<close>

theorem cum_ret_formula:
  assumes "valid_input (map snd df) b_pct s_pct amt" and "faithful rnd"
  shows "\<exists>r. run_strategy_logic rnd df b_pct s_pct amt = Returns r
     \<and> length (r_history r) = length df
     \<and> (0 < real (r_b_cnt r) * amt \<longrightarrow>
          rnd (real (r_b_cnt r) * amt) \<noteq> 0
          \<and> r_cum_ret r = rnd (rnd (r_history r ! (length df - 1) / rnd (real (r_b_cnt r) * amt)) - 1))
     \<and> (\<not> 0 < real (r_b_cnt r) * amt \<longrightarrow> r_cum_ret r = 0)
     \<and> (r_b_cnt r = 0 \<longrightarrow> r_cum_ret r = 0)"
proof -
  from valid_run[OF assms(1), of rnd] obtain st :: state and r where
    len: "length (history st) = length df"
    and r: "run_strategy_logic rnd df b_pct s_pct amt = Returns r"
    and rh: "r_history r = history st" and rb: "r_b_cnt r = b_cnt st"
    and rc: "r_cum_ret r = (if total_inv rnd (b_cnt st) amt > 0
                      then rnd (rnd (last (history st) / total_inv rnd (b_cnt st) amt) - 1) else 0)"
    by blast
  have ne: "history st \<noteq> []" using len assms(1) by (auto simp: valid_input_def)
  have last: "last (history st) = r_history r ! (length df - 1)"
    using last_conv_nth[OF ne] len rh by simp
  have pos: "0 < total_inv rnd (b_cnt st) amt \<longleftrightarrow> 0 < real (r_b_cnt r) * amt"
    using faithful_pos_iff[OF assms(2)] rb by (simp add: total_inv_def)
  show ?thesis
    using r rh len rc last pos rb by (auto simp: total_inv_def)
qed

subsection \<open>The win rate\<close>

lemma count_rises:
  assumes "faithful rnd"
  shows "length (filter (\<lambda>d. 0 < d) (np_diff rnd h)) = card {i. Suc i < length h \<and> h ! i < h ! Suc i}"
proof -
  have "(i < length (np_diff rnd h) \<and> 0 < np_diff rnd h ! i) = (Suc i < length h \<and> h ! i < h ! Suc i)" for i
  proof (cases "Suc i < length h")
    case True
    then have "np_diff rnd h ! i = rnd (h ! Suc i - h ! i)" by (rule nth_np_diff)
    moreover have "0 < rnd (h ! Suc i - h ! i) \<longleftrightarrow> 0 < h ! Suc i - h ! i"
      by (rule faithful_pos_iff[OF assms])
    moreover have "i < length h - 1" using True by arith
    ultimately show ?thesis using True by (simp add: length_np_diff)
  next
    case False
    then have "\<not> i < length h - 1" by arith
    then show ?thesis using False by (simp add: length_np_diff)
  qed
  then have "{i. i < length (np_diff rnd h) \<and> 0 < np_diff rnd h ! i} = {i. Suc i < length h \<and> h ! i < h ! Suc i}"
    by simp
  then show ?thesis by (simp only: length_filter_conv_card)
qed

lemma faithful_unit:
  assumes "faithful rnd" and "0 \<le> x" and "x \<le> 1"
  shows "0 \<le> rnd x \<and> rnd x \<le> 1"
proof -
  have m: "rnd a \<le> rnd b" if "a \<le> b" for a b
    using assms(1) that by (simp add: faithful_def)
  have "rnd 0 = 0" and "rnd 1 = 1" using assms(1) by (simp_all add: faithful_def)
  then show ?thesis using m[OF assms(2)] m[OF assms(3)] by simp
qed

lemma win_rate_unit:
  assumes "faithful rnd"
  shows "0 \<le> win_rate rnd h \<and> win_rate rnd h \<le> 1"
proof (cases "length h > 1")
  case True
  let ?k = "length (filter (\<lambda>d. 0 < d) (np_diff rnd h))"
  let ?n = "length (np_diff rnd h)"
  have "?k \<le> ?n" by (rule length_filter_le)
  moreover have "0 < ?n" using True by (simp add: length_np_diff)
  ultimately have "0 \<le> real ?k / real ?n \<and> real ?k / real ?n \<le> 1" by simp
  then show ?thesis
    using faithful_unit[OF assms] True by (simp add: win_rate_def)
next
  case False
  then show ?thesis by (simp add: win_rate_def)
qed

text \<open>
  Claim C7. On a valid input of \<open>N\<close> observations the win rate is the number of indices
  \<open>i \<ge> 1\<close> with \<open>E[i] > E[i-1]\<close> divided by \<open>N - 1\<close>, it is 0 when \<open>N \<le> 1\<close>, and it lies
  in the closed interval from 0 to 1.
\<close>

theorem win_rate_fraction:
  assumes "valid_input (map snd df) b_pct s_pct amt" and "faithful rnd"
  shows "\<exists>r. run_strategy_logic rnd df b_pct s_pct amt = Returns r
     \<and> length (r_history r) = length df
     \<and> r_win_rate r =
         (if length df \<le> 1 then 0
          else rnd (real (card {i. Suc i < length df \<and> r_history r ! i < r_history r ! Suc i})
                    / real (length df - 1)))
     \<and> 0 \<le> r_win_rate r \<and> r_win_rate r \<le> 1"
proof -
  from valid_run[OF assms(1), of rnd] obtain st :: state and r where
    len: "length (history st) = length df"
    and r: "run_strategy_logic rnd df b_pct s_pct amt = Returns r"
    and rh: "r_history r = history st"
    and rw: "r_win_rate r = win_rate rnd (history st)"
    by blast
  have "win_rate rnd (history st) =
         (if length df \<le> 1 then 0
          else rnd (real (card {i. Suc i < length df \<and> history st ! i < history st ! Suc i})
                    / real (length df - 1)))"
    using count_rises[OF assms(2), of "history st"] len
    by (simp add: win_rate_def length_np_diff)
  then show ?thesis
    using r rh rw len win_rate_unit[OF assms(2), of "history st"] by auto
qed


subsection \<open>The dates\<close>

text \<open>
  Claim C10. The numeric outputs depend on the prices and the three parameters only: two
  data frames with the same column of prices and any two indices, of any types, give the
  same trajectory, counts, cumulative return, drawdown, win rate and final position value
  (or fail alike), and the index is handed back as it came. The model is a function, so
  two runs on one input agree.
\<close>

theorem dates_unused:
  assumes "map snd df = map snd df'"
  shows "map_outcome numeric_part (run_strategy_logic rnd df b_pct s_pct amt)
       = map_outcome numeric_part (run_strategy_logic rnd df' b_pct s_pct amt)
     \<and> (\<forall>r. run_strategy_logic rnd df b_pct s_pct amt = Returns r \<longrightarrow> r_index r = map fst df)"
proof
  show "map_outcome numeric_part (run_strategy_logic rnd df b_pct s_pct amt)
       = map_outcome numeric_part (run_strategy_logic rnd df' b_pct s_pct amt)"
    unfolding run_strategy_logic_def Let_def assms[symmetric]
    by (simp add: numeric_part_def split: option.splits sum.splits list.splits)
  show "\<forall>r. run_strategy_logic rnd df b_pct s_pct amt = Returns r \<longrightarrow> r_index r = map fst df"
    unfolding run_strategy_logic_def Let_def
    by (auto split: option.splits sum.splits list.splits)
qed


theorem cum_ret_formula_witness:
  "valid_input (map snd example_df) 1 (3 / 2) 1000 \<and> faithful exact
   \<and> (\<exists>r. run_strategy_logic exact example_df 1 (3 / 2) 1000 = Returns r
        \<and> length (r_history r) = length example_df
        \<and> (r_b_cnt r = 0 \<longrightarrow> r_cum_ret r = 0))"
proof -
  have v: "valid_input (map snd example_df) 1 (3 / 2) 1000"
    by (simp add: valid_input_def example_df_def)
  from cum_ret_formula [OF v faithful_exact] obtain r where
    "run_strategy_logic exact example_df 1 (3 / 2) 1000 = Returns r"
    "length (r_history r) = length example_df"
    "r_b_cnt r = 0 \<longrightarrow> r_cum_ret r = 0"
    by (elim exE conjE)
  then show ?thesis
    using v faithful_exact by (intro conjI exI[of _ r])
qed

theorem win_rate_fraction_witness:
  "valid_input (map snd example_df) 1 (3 / 2) 1000 \<and> faithful exact
   \<and> (\<exists>r. run_strategy_logic exact example_df 1 (3 / 2) 1000 = Returns r
        \<and> 0 \<le> r_win_rate r \<and> r_win_rate r \<le> 1)"
proof -
  have v: "valid_input (map snd example_df) 1 (3 / 2) 1000"
    by (simp add: valid_input_def example_df_def)
  from win_rate_fraction [OF v faithful_exact] show ?thesis
    using v faithful_exact by blast
qed

theorem dates_unused_witness:
  "map snd [(0::nat, 100::real), (1, 99)] = map snd [(''2016-01-04'', 100::real), (''2016-01-05'', 99)]
   \<and> map_outcome numeric_part (run_strategy_logic exact [(0::nat, 100), (1, 99)] 1 (3 / 2) 1000)
       = map_outcome numeric_part
           (run_strategy_logic exact [(''2016-01-04'', 100), (''2016-01-05'', 99)] 1 (3 / 2) 1000)"
proof -
  have e: "map snd [(0::nat, 100::real), (1, 99)]
      = map snd [(''2016-01-04'', 100::real), (''2016-01-05'', 99)]"
    by simp
  from dates_unused [OF e, of exact 1 "3 / 2" 1000] show ?thesis
    using e by blast
qed


subsection \<open>The maximum drawdown\<close>










lemma np_le_antisym: "np_le a b \<Longrightarrow> np_le b a \<Longrightarrow> a = b"
  by (cases a; cases b) auto

















subsection \<open>The sign of the position\<close>

text \<open>
  In exact arithmetic a sell never takes more than is held: \<open>val \<le> shares * p\<close>, so
  \<open>shares - val / p \<ge> 0\<close>.
\<close>

lemma day_shares_exact:
  assumes "0 < p" and "0 < a" and "0 \<le> shares st" and "day exact b s a st (p, c) = Some st'"
  shows "0 \<le> shares st'"
proof -
  have "min a (shares st * p) / p \<le> shares st * p / p"
    using assms(1) by (intro divide_right_mono) simp_all
  then have "min a (shares st * p) / p \<le> shares st" using assms(1) by simp
  moreover have "0 \<le> a / p" using assms(1,2) by simp
  ultimately show ?thesis
    using assms(3,4) by (auto simp: day_def record_equity_def exact_def Let_def split: if_splits)
qed

lemma loop_shares_exact:
  assumes "0 < a"
  shows "\<forall>pc \<in> set xs. 0 < fst pc \<Longrightarrow> 0 \<le> shares st \<Longrightarrow>
     loop exact b s a st xs = Some st' \<Longrightarrow> 0 \<le> shares st'"
proof (induction xs arbitrary: st)
  case Nil
  then show ?case by simp
next
  case (Cons pc xs)
  obtain p c where pc: "pc = (p, c)" by (cases pc)
  from Cons.prems(3) obtain st1 where d: "day exact b s a st pc = Some st1"
    and l: "loop exact b s a st1 xs = Some st'"
    by (auto split: option.splits)
  have "0 < p" using Cons.prems(1) pc by simp
  then have "0 \<le> shares st1"
    using day_shares_exact[OF _ assms Cons.prems(2)] d pc by simp
  then show ?case using Cons.IH[OF _ _ l] Cons.prems(1) by simp
qed

lemma shares_nonneg_exact:
  assumes "valid_input prices b s a" and "state_after exact b s a prices i = Some st"
  shows "0 \<le> shares st"
proof -
  obtain cs where cs: "changes exact prices = Some cs"
    using assms(2) by (auto simp: state_after_def split: option.splits)
  have l: "loop exact b s a init_state (take i (zip prices cs)) = Some st"
    using assms(2) cs by (simp add: state_after_def)
  have "\<forall>pc \<in> set (take i (zip prices cs)). 0 < fst pc"
  proof
    fix pc assume "pc \<in> set (take i (zip prices cs))"
    then have "pc \<in> set (zip prices cs)" by (rule in_set_takeD)
    then have "fst pc \<in> set prices" by (metis prod.collapse set_zip_leftD)
    then show "0 < fst pc" using assms(1) by (simp add: valid_input_def list_all_iff)
  qed
  moreover have "0 < a" using assms(1) by (simp add: valid_input_def)
  ultimately show ?thesis
    using loop_shares_exact[OF _ _ _ l] by (simp add: init_state_def)
qed

text \<open>
  Claim C4 says that on every valid input the share count after every day is at least 0,
  since a sell is capped by the value held. The function computes in binary64, where the
  cap is taken on the rounded product \<open>shares * p\<close> and the quotient \<open>val / p\<close> is rounded
  again, and the result may exceed \<open>shares\<close>. With the prices 4, 3, 4, 7, thresholds of 1 and
  1.5 per cent and a trade amount of 1, the buy of day 1 and the sells of days 2 and 3 leave
  \<open>shares = - 2 ^ -56\<close> after the last day.
\<close>

theorem shares_negative_binary64:
  "valid_input [4, 3, 4, 7] 1 (3 / 2) 1
   \<and> map_option shares (state_after round53 1 (3 / 2) 1 [4, 3, 4, 7] 4) = Some (- (1 / 2 ^ 56))"
  by (simp add: valid_input_def state_after_def eval_defs round53_def round_half_even_def)

end
